theory Spec2Isabelle
  imports Main "HOL-Library.Multiset"
begin

section \<open>The TypeSet element checks of \<open>aws/internal/tfawsresource/testing.go\<close>\<close>

text \<open>
  The file holds two check functions over the flattened attributes of a resource's
  primary instance: \<open>TestCheckTypeSetElemNestedAttrs\<close> and \<open>TestCheckTypeSetElemAttr\<close>.
  Each returns a closure over the state; the model takes the closure's argument as a
  further parameter. The argument is the root module of the state, the value of
  \<open>s.RootModule()\<close>.
\<close>

subsection \<open>Data\<close>

text \<open>
  The parts of the SDK's state types that the two functions read. A Go map is ranged over
  in an order the language leaves open, so \<open>Attributes\<close> is the list of the map's
  entries in the order one run of \<open>range\<close> yields them; the resource map is only
  looked up. The criteria, \<open>map[string]string\<close> in the source, are the list of their
  entries as well: the function counts them and looks keys up. A Go map has each key
  once; the properties below are proved for all lists, those with distinct keys among
  them. The counters are of type \<open>int\<close> in the source and never exceed the number of
  attributes; they are natural numbers here.
\<close>

record InstanceState =
  Attributes :: "(string \<times> string) list"

record ResourceState =
  Primary :: "InstanceState option"

record ModuleState =
  Path :: "string list"
  Resources :: "string \<rightharpoonup> ResourceState"

text \<open>
  The functions return a Go \<open>error\<close> built by \<open>fmt.Errorf\<close>; the model keeps the kind
  of each error and the arguments that identify it. \<open>IndexOutOfRange\<close> is the run-time
  panic of an index expression outside its slice.
\<close>

datatype error =
    ResourceNotFound string "string list"
  | InstanceNotFound string "string list"
  | InvalidPattern string
  | EmptyCriteria
  | ElementNotFound string string
  | IndexOutOfRange

definition sentinelIndex :: string where
  "sentinelIndex = ''*''"

subsection \<open>Library functions\<close>

text \<open>\<open>strings.Split(s, ".")\<close>: the substrings between the dots, at least one.\<close>

fun Split :: "string \<Rightarrow> string list" where
  "Split [] = [[]]"
| "Split (c # cs) =
     (if c = CHR ''.'' then [] # Split cs
      else (case Split cs of [] \<Rightarrow> [[c]] | p # ps \<Rightarrow> (c # p) # ps))"

text \<open>\<open>strings.Join(parts, ".")\<close>.\<close>

fun Join :: "string list \<Rightarrow> string" where
  "Join [] = []"
| "Join [p] = p"
| "Join (p # q # ps) = p @ ''.'' @ Join (q # ps)"

text \<open>An index expression \<open>xs[i]\<close>: it panics outside the slice.\<close>

definition index :: "'a list \<Rightarrow> nat \<Rightarrow> error + 'a" where
  "index xs i = (if i < length xs then Inr (xs ! i) else Inl IndexOutOfRange)"

text \<open>A slice expression \<open>xs[n:]\<close>: it panics when \<open>n\<close> is beyond the length.\<close>

definition slice_from :: "'a list \<Rightarrow> nat \<Rightarrow> error + 'a list" where
  "slice_from xs n = (if n \<le> length xs then Inr (drop n xs) else Inl IndexOutOfRange)"

text \<open>A read of \<open>matches[id]\<close>: a missing key reads as zero.\<close>

definition lookup_count :: "(string \<rightharpoonup> nat) \<Rightarrow> string \<Rightarrow> nat" where
  "lookup_count matches ident = (case matches ident of None \<Rightarrow> 0 | Some c \<Rightarrow> c)"

subsection \<open>The functions\<close>

text \<open>
  The loop \<open>for i := range attrParts\<close> of both functions, from index \<open>i\<close> on. The
  condition reads \<open>stateKeyParts[i]\<close> before it compares \<open>attrParts[i]\<close> with the
  sentinel. The result is \<open>Inr True\<close> when the last index is reached without a
  \<open>break\<close>, where one function sets \<open>pathMatch\<close> and the other returns \<open>nil\<close>.
\<close>

function path_loop :: "string list \<Rightarrow> string list \<Rightarrow> nat \<Rightarrow> error + bool" where
  "path_loop attrParts stateKeyParts i =
     (if i < length attrParts then
        (case index stateKeyParts i of
           Inl e \<Rightarrow> Inl e
         | Inr part \<Rightarrow>
             if attrParts ! i \<noteq> part \<and> attrParts ! i \<noteq> sentinelIndex then Inr False
             else if i = length attrParts - 1 then Inr True
             else path_loop attrParts stateKeyParts (Suc i))
      else Inr False)"
  by pat_completeness auto
termination
  by (relation "measure (\<lambda>(attrParts, stateKeyParts, i). length attrParts - i)") auto

text \<open>The loop that counts the criteria with a non-empty value.\<close>

fun count_nonempty :: "(string \<times> string) list \<Rightarrow> nat" where
  "count_nonempty [] = 0"
| "count_nonempty ((k, v) # rest) =
     (if v \<noteq> [] then Suc (count_nonempty rest) else count_nonempty rest)"

text \<open>
  The loop over \<open>is.Attributes\<close> of \<open>TestCheckTypeSetElemNestedAttrs\<close>, with the
  counters \<open>matches\<close> as its state. \<open>Inr True\<close> is the \<open>return nil\<close> inside the loop,
  \<open>Inr False\<close> the end of the loop.
\<close>

fun nested_scan ::
  "string list \<Rightarrow> (string \<times> string) list \<Rightarrow> nat \<Rightarrow> (string \<rightharpoonup> nat) \<Rightarrow>
   (string \<times> string) list \<Rightarrow> error + bool" where
  "nested_scan attrParts values matchCount matches [] = Inr False"
| "nested_scan attrParts values matchCount matches ((stateKey, stateValue) # rest) =
     (let stateKeyParts = Split stateKey in
      if length stateKeyParts < 3 then nested_scan attrParts values matchCount matches rest
      else
        (case path_loop attrParts stateKeyParts 0 of
           Inl e \<Rightarrow> Inl e
         | Inr pathMatch \<Rightarrow>
             if \<not> pathMatch then nested_scan attrParts values matchCount matches rest
             else
               (case index stateKeyParts (length attrParts - 1) of
                  Inl e \<Rightarrow> Inl e
                | Inr ident \<Rightarrow>
                    (case slice_from stateKeyParts (length attrParts) of
                       Inl e \<Rightarrow> Inl e
                     | Inr suffix \<Rightarrow>
                         (let nestedAttr = Join suffix in
                          case map_of values nestedAttr of
                            None \<Rightarrow> nested_scan attrParts values matchCount matches rest
                          | Some v \<Rightarrow>
                              if v = stateValue then
                                (let matches' = matches(ident \<mapsto> lookup_count matches ident + 1) in
                                 if lookup_count matches' ident = matchCount then Inr True
                                 else nested_scan attrParts values matchCount matches' rest)
                              else nested_scan attrParts values matchCount matches rest)))))"

definition TestCheckTypeSetElemNestedAttrs ::
  "string \<Rightarrow> string \<Rightarrow> (string \<times> string) list \<Rightarrow> ModuleState \<Rightarrow> error + unit" where
  "TestCheckTypeSetElemNestedAttrs res attr values ms =
     (case Resources ms res of
        None \<Rightarrow> Inl (ResourceNotFound res (Path ms))
      | Some rs \<Rightarrow>
          (case Primary rs of
             None \<Rightarrow> Inl (InstanceNotFound res (Path ms))
           | Some is \<Rightarrow>
               (let attrParts = Split attr in
                case index attrParts (length attrParts - 1) of
                  Inl e \<Rightarrow> Inl e
                | Inr lastPart \<Rightarrow>
                    if lastPart \<noteq> sentinelIndex then Inl (InvalidPattern attr)
                    else
                      (let matchCount = count_nonempty values in
                       if matchCount = 0 then Inl EmptyCriteria
                       else
                         (case nested_scan attrParts values matchCount Map.empty (Attributes is) of
                            Inl e \<Rightarrow> Inl e
                          | Inr True \<Rightarrow> Inr ()
                          | Inr False \<Rightarrow> Inl (ElementNotFound res attr))))))"

text \<open>
  The loop over \<open>is.Attributes\<close> of \<open>TestCheckTypeSetElemAttr\<close>. The inner loop runs only
  when the two segment lists have the same length.
\<close>

fun scalar_scan :: "string list \<Rightarrow> string \<Rightarrow> (string \<times> string) list \<Rightarrow> error + bool" where
  "scalar_scan attrParts val [] = Inr False"
| "scalar_scan attrParts val ((stateKey, stateValue) # rest) =
     (if stateValue = val then
        (let stateKeyParts = Split stateKey in
         if length stateKeyParts = length attrParts then
           (case path_loop attrParts stateKeyParts 0 of
              Inl e \<Rightarrow> Inl e
            | Inr found \<Rightarrow> if found then Inr True else scalar_scan attrParts val rest)
         else scalar_scan attrParts val rest)
      else scalar_scan attrParts val rest)"

definition TestCheckTypeSetElemAttr ::
  "string \<Rightarrow> string \<Rightarrow> string \<Rightarrow> ModuleState \<Rightarrow> error + unit" where
  "TestCheckTypeSetElemAttr res attr val ms =
     (case Resources ms res of
        None \<Rightarrow> Inl (ResourceNotFound res (Path ms))
      | Some rs \<Rightarrow>
          (case Primary rs of
             None \<Rightarrow> Inl (InstanceNotFound res (Path ms))
           | Some is \<Rightarrow>
               (let attrParts = Split attr in
                case index attrParts (length attrParts - 1) of
                  Inl e \<Rightarrow> Inl e
                | Inr lastPart \<Rightarrow>
                    if lastPart \<noteq> sentinelIndex then Inl (InvalidPattern attr)
                    else
                      (case scalar_scan attrParts val (Attributes is) of
                         Inl e \<Rightarrow> Inl e
                       | Inr True \<Rightarrow> Inr ()
                       | Inr False \<Rightarrow> Inl (ElementNotFound res attr)))))"

subsection \<open>The vocabulary of the properties\<close>

text \<open>
  The path comparison in words: at every position of the pattern, the pattern's segment
  is the key's segment there or it is the sentinel.
\<close>

definition segments_agree :: "string list \<Rightarrow> string list \<Rightarrow> bool" where
  "segments_agree attrParts stateKeyParts \<longleftrightarrow>
     (\<forall>i < length attrParts. attrParts ! i = stateKeyParts ! i \<or> attrParts ! i = sentinelIndex)"

text \<open>
  A key of at least three segments that has fewer segments than the pattern and agrees
  with the pattern on every segment it has.
\<close>

definition short_of_pattern :: "string list \<Rightarrow> string list \<Rightarrow> bool" where
  "short_of_pattern attrParts stateKeyParts \<longleftrightarrow>
     3 \<le> length stateKeyParts \<and> length stateKeyParts < length attrParts \<and>
     (\<forall>i < length stateKeyParts. attrParts ! i = stateKeyParts ! i \<or> attrParts ! i = sentinelIndex)"

text \<open>An entry whose key is not of that kind.\<close>

definition reads_in_range :: "string list \<Rightarrow> string \<times> string \<Rightarrow> bool" where
  "reads_in_range attrParts entry \<longleftrightarrow> \<not> short_of_pattern attrParts (Split (fst entry))"

text \<open>
  A key matches the pattern with element id \<open>ident\<close>: it has at least three
  segments and at least as many as the pattern, it agrees with the pattern, and its
  segment at the pattern's last position is \<open>ident\<close>.
\<close>

definition key_matches :: "string list \<Rightarrow> string list \<Rightarrow> string \<Rightarrow> bool" where
  "key_matches attrParts stateKeyParts ident \<longleftrightarrow>
     3 \<le> length stateKeyParts \<and> length attrParts \<le> length stateKeyParts \<and>
     segments_agree attrParts stateKeyParts \<and>
     stateKeyParts ! (length attrParts - 1) = ident"

text \<open>
  An entry satisfies a criterion for \<open>ident\<close>: its key matches the pattern with
  \<open>ident\<close>, the rest of the key is a key of the criteria, and the entry's value is
  the value expected there.
\<close>

definition satisfies ::
  "string list \<Rightarrow> (string \<times> string) list \<Rightarrow> string \<Rightarrow> string \<times> string \<Rightarrow> bool" where
  "satisfies attrParts values ident entry \<longleftrightarrow>
     key_matches attrParts (Split (fst entry)) ident \<and>
     map_of values (Join (drop (length attrParts) (Split (fst entry)))) = Some (snd entry)"

text \<open>The number of entries that satisfy a criterion for \<open>ident\<close>.\<close>

definition satisfied_count ::
  "string list \<Rightarrow> (string \<times> string) list \<Rightarrow> string \<Rightarrow> (string \<times> string) list \<Rightarrow> nat" where
  "satisfied_count attrParts values ident entries =
     length (filter (satisfies attrParts values ident) entries)"

text \<open>
  An entry matches a scalar query: as many segments as the pattern, the expected value,
  and agreement with the pattern.
\<close>

definition element_matches :: "string list \<Rightarrow> string \<Rightarrow> string \<times> string \<Rightarrow> bool" where
  "element_matches attrParts val entry \<longleftrightarrow>
     length (Split (fst entry)) = length attrParts \<and> snd entry = val \<and>
     segments_agree attrParts (Split (fst entry))"


text \<open>
  A root module with one resource, whose primary instance has the given attributes in
  the given order of traversal.
\<close>

definition single_resource :: "string \<Rightarrow> (string \<times> string) list \<Rightarrow> ModuleState" where
  "single_resource res attrs =
     \<lparr>Path = [''root''], Resources = [res \<mapsto> \<lparr>Primary = Some \<lparr>Attributes = attrs\<rparr>\<rparr>]\<rparr>"

section \<open>Properties of the loops\<close>

declare path_loop.simps [simp del]

text \<open>\<open>strings.Split\<close> never returns an empty slice.\<close>

lemma Split_not_Nil: "Split s \<noteq> []"
  by (induction s) (auto split: list.splits)

text \<open>
  The segments hold no dot, and joining them with dots gives the string back: the two
  properties that fix \<open>strings.Split\<close> on the separator \<open>.\<close>.
\<close>

lemma Join_Cons_Cons: "Join ((c # p) # ps) = c # Join (p # ps)"
  by (cases ps) simp_all

lemma Join_Split: "Join (Split s) = s"
proof (induction s)
  case Nil
  show ?case by simp
next
  case (Cons c cs)
  obtain p ps where sp: "Split cs = p # ps"
    using Split_not_Nil [of cs] by (cases "Split cs") auto
  show ?case
    using Cons.IH by (simp add: sp Join_Cons_Cons)
qed

lemma Split_no_dot: "p \<in> set (Split s) \<Longrightarrow> CHR ''.'' \<notin> set p"
proof (induction s arbitrary: p)
  case Nil
  then show ?case by simp
next
  case (Cons c cs)
  obtain q qs where sp: "Split cs = q # qs"
    using Split_not_Nil [of cs] by (cases "Split cs") auto
  show ?case
    using Cons.prems Cons.IH [of p] Cons.IH [of q]
    by (auto simp add: sp split: if_splits)
qed

text \<open>
  The path comparison, started at index \<open>i\<close>, ends with a match exactly when the key
  is at least as long as the pattern and agrees with it from \<open>i\<close> on.
\<close>

lemma path_loop_True_iff:
  "path_loop a k i = Inr True \<longleftrightarrow>
     i < length a \<and> length a \<le> length k \<and>
     (\<forall>j. i \<le> j \<and> j < length a \<longrightarrow> a ! j = k ! j \<or> a ! j = sentinelIndex)"
proof (induction a k i rule: path_loop.induct)
  case (1 a k i)
  show ?case
  proof (cases "i < length a")
    case False
    then show ?thesis by (simp add: path_loop.simps [of a k i])
  next
    case ia: True
    show ?thesis
    proof (cases "i < length k")
      case False
      with ia show ?thesis by (simp add: path_loop.simps [of a k i] index_def)
    next
      case ik: True
      show ?thesis
      proof (cases "a ! i \<noteq> k ! i \<and> a ! i \<noteq> sentinelIndex")
        case True
        with ia ik show ?thesis
          by (auto simp add: path_loop.simps [of a k i] index_def)
      next
        case ok: False
        show ?thesis
        proof (cases "i = length a - 1")
          case True
          have "path_loop a k i = Inr True"
            using ia ik ok True by (subst path_loop.simps) (simp add: index_def)
          moreover have "\<And>j. i \<le> j \<and> j < length a \<Longrightarrow> j = i"
            using True by arith
          moreover have "length a \<le> length k"
            using True ia ik by arith
          ultimately show ?thesis
            using ia ok by auto
        next
          case False
          have "path_loop a k i = path_loop a k (Suc i)"
            using ia ik ok False by (subst path_loop.simps) (auto simp add: index_def)
          also have "\<dots> = Inr True \<longleftrightarrow> Suc i < length a \<and> length a \<le> length k \<and>
             (\<forall>j. i < j \<and> j < length a \<longrightarrow> a ! j = k ! j \<or> a ! j = sentinelIndex)"
            using "1.IH" [OF ia _ _ False] ia ik ok by (simp add: index_def Suc_le_eq)
          also have "\<dots> \<longleftrightarrow> i < length a \<and> length a \<le> length k \<and>
             (\<forall>j. i \<le> j \<and> j < length a \<longrightarrow> a ! j = k ! j \<or> a ! j = sentinelIndex)"
            using ia ok False by (auto simp: le_less)
          finally show ?thesis .
        qed
      qed
    qed
  qed
qed

text \<open>
  It ends in the panic exactly when the key is shorter than the pattern and agrees with
  it from \<open>i\<close> up to the key's end.
\<close>

lemma path_loop_Inl_iff:
  "path_loop a k i = Inl e \<longleftrightarrow>
     e = IndexOutOfRange \<and> i < length a \<and> length k < length a \<and>
     (\<forall>j. i \<le> j \<and> j < length k \<longrightarrow> a ! j = k ! j \<or> a ! j = sentinelIndex)"
proof (induction a k i rule: path_loop.induct)
  case (1 a k i)
  show ?case
  proof (cases "i < length a")
    case False
    then show ?thesis by (subst path_loop.simps) simp
  next
    case ia: True
    show ?thesis
    proof (cases "i < length k")
      case False
      with ia show ?thesis by (subst path_loop.simps) (auto simp add: index_def)
    next
      case ik: True
      show ?thesis
      proof (cases "a ! i \<noteq> k ! i \<and> a ! i \<noteq> sentinelIndex")
        case True
        have "path_loop a k i = Inr False"
          using ia ik True by (subst path_loop.simps) (simp add: index_def)
        with ia ik True show ?thesis by auto
      next
        case ok: False
        show ?thesis
        proof (cases "i = length a - 1")
          case True
          have "path_loop a k i = Inr True"
            using ia ik ok True by (subst path_loop.simps) (simp add: index_def)
          moreover have "length a \<le> length k"
            using True ia ik by arith
          ultimately show ?thesis by auto
        next
          case False
          have "path_loop a k i = path_loop a k (Suc i)"
            using ia ik ok False by (subst path_loop.simps) (auto simp add: index_def)
          also have "\<dots> = Inl e \<longleftrightarrow> e = IndexOutOfRange \<and> Suc i < length a \<and>
             length k < length a \<and>
             (\<forall>j. i < j \<and> j < length k \<longrightarrow> a ! j = k ! j \<or> a ! j = sentinelIndex)"
            using "1.IH" [OF ia _ _ False] ia ik ok by (simp add: index_def Suc_le_eq)
          also have "\<dots> \<longleftrightarrow> e = IndexOutOfRange \<and> i < length a \<and> length k < length a \<and>
             (\<forall>j. i \<le> j \<and> j < length k \<longrightarrow> a ! j = k ! j \<or> a ! j = sentinelIndex)"
            using ia ok False by (auto simp: le_less)
          finally show ?thesis .
        qed
      qed
    qed
  qed
qed

lemma path_loop_0_True:
  "path_loop a k 0 = Inr True \<longleftrightarrow> a \<noteq> [] \<and> length a \<le> length k \<and> segments_agree a k"
  by (simp add: path_loop_True_iff segments_agree_def)

lemma path_loop_0_Inl:
  "path_loop a k 0 = Inl e \<longleftrightarrow> e = IndexOutOfRange \<and> length k < length a \<and>
     (\<forall>i < length k. a ! i = k ! i \<or> a ! i = sentinelIndex)"
  by (auto simp add: path_loop_Inl_iff)

lemma path_loop_same_length:
  "length k = length a \<Longrightarrow> path_loop a k 0 = Inr (a \<noteq> [] \<and> segments_agree a k)"
proof -
  assume len: "length k = length a"
  show ?thesis
  proof (cases "path_loop a k 0")
    case (Inl e)
    with len show ?thesis by (simp add: path_loop_0_Inl)
  next
    case (Inr b)
    have "b \<longleftrightarrow> a \<noteq> [] \<and> segments_agree a k"
      using path_loop_0_True [of a k] Inr len by auto
    with Inr show ?thesis by simp
  qed
qed

lemma index_last: "xs \<noteq> [] \<Longrightarrow> index xs (length xs - Suc 0) = Inr (last xs)"
  by (simp add: index_def last_conv_nth)

text \<open>
  One step of the loop of the nested check, by the kind of the entry: a key shorter
  than the pattern that agrees with it, an entry that satisfies no criterion, an entry
  that satisfies one.
\<close>

lemma nested_scan_short:
  assumes "short_of_pattern a (Split k)"
  shows "nested_scan a vals mc m ((k, v) # rest) = Inl IndexOutOfRange"
proof -
  obtain e where "path_loop a (Split k) 0 = Inl e" and "e = IndexOutOfRange"
    using assms path_loop_0_Inl [of a "Split k" IndexOutOfRange]
    by (auto simp: short_of_pattern_def)
  with assms show ?thesis
    by (simp add: short_of_pattern_def Let_def)
qed

lemma nested_scan_skip:
  assumes "a \<noteq> []" and "\<not> short_of_pattern a (Split k)"
    and "\<And>ident. \<not> satisfies a vals ident (k, v)"
  shows "nested_scan a vals mc m ((k, v) # rest) = nested_scan a vals mc m rest"
proof (cases "length (Split k) < 3")
  case True
  then show ?thesis by (simp add: Let_def)
next
  case long: False
  show ?thesis
  proof (cases "path_loop a (Split k) 0")
    case (Inl e)
    with assms(2) long have False
      by (auto simp: path_loop_0_Inl short_of_pattern_def)
    then show ?thesis ..
  next
    case (Inr b)
    show ?thesis
    proof (cases b)
      case False
      with Inr long show ?thesis by (simp add: Let_def)
    next
      case True
      with Inr have pm: "length a \<le> length (Split k)" "segments_agree a (Split k)"
        by (simp_all add: path_loop_0_True)
      have idx: "index (Split k) (length a - 1) = Inr (Split k ! (length a - 1))"
        using pm(1) assms(1) by (cases a) (simp_all add: index_def)
      have sl: "slice_from (Split k) (length a) = Inr (drop (length a) (Split k))"
        using pm(1) by (simp add: slice_from_def)
      have "map_of vals (Join (drop (length a) (Split k))) \<noteq> Some v"
        using assms(3) [of "Split k ! (length a - 1)"] pm long
        by (simp add: satisfies_def key_matches_def)
      with Inr True long idx sl show ?thesis
        by (auto simp add: Let_def split: option.splits)
    qed
  qed
qed

lemma nested_scan_hit:
  assumes "a \<noteq> []" and "satisfies a vals ident (k, v)"
  shows "nested_scan a vals mc m ((k, v) # rest) =
    (if lookup_count m ident + 1 = mc then Inr True
     else nested_scan a vals mc (m(ident \<mapsto> lookup_count m ident + 1)) rest)"
proof -
  from assms(2) have long: "\<not> length (Split k) < 3"
    and len: "length a \<le> length (Split k)"
    and agree: "segments_agree a (Split k)"
    and ident: "Split k ! (length a - 1) = ident"
    and crit: "map_of vals (Join (drop (length a) (Split k))) = Some v"
    by (simp_all add: satisfies_def key_matches_def)
  have pl: "path_loop a (Split k) 0 = Inr True"
    using assms(1) len agree by (simp add: path_loop_0_True)
  have idx: "index (Split k) (length a - 1) = Inr ident"
    using len assms(1) ident by (cases a) (simp_all add: index_def)
  have sl: "slice_from (Split k) (length a) = Inr (drop (length a) (Split k))"
    using len by (simp add: slice_from_def)
  show ?thesis
    using long pl idx sl crit by (simp add: Let_def lookup_count_def)
qed

lemma satisfies_ident:
  "satisfies a vals ident e \<Longrightarrow> satisfies a vals ident' e \<Longrightarrow> ident = ident'"
  by (simp add: satisfies_def key_matches_def)

lemma satisfies_in_range:
  "satisfies a vals ident e \<Longrightarrow> reads_in_range a e"
  by (auto simp add: satisfies_def key_matches_def reads_in_range_def short_of_pattern_def)

lemma lookup_count_upd:
  "lookup_count (m(ident \<mapsto> c)) ident' = (if ident' = ident then c else lookup_count m ident')"
  by (simp add: lookup_count_def)

text \<open>
  The result of the loop of the nested check, for counters all below the threshold. The
  entries before the first key that is shorter than the pattern and agrees with it
  decide success; without success there, such a key ends the loop in the panic.
\<close>

lemma nested_scan_eq:
  assumes "a \<noteq> []" and "\<forall>ident. lookup_count m ident < mc"
  shows "nested_scan a vals mc m entries =
    (if \<exists>ident. mc \<le> lookup_count m ident +
          satisfied_count a vals ident (takeWhile (reads_in_range a) entries)
     then Inr True
     else if \<exists>e \<in> set entries. \<not> reads_in_range a e then Inl IndexOutOfRange
     else Inr False)"
  using assms(2)
proof (induction entries arbitrary: m)
  case Nil
  then show ?case by (auto simp add: satisfied_count_def not_le)
next
  case (Cons e entries)
  obtain k v where e: "e = (k, v)" by (cases e)
  let ?pre = "takeWhile (reads_in_range a) entries"
  show ?case
  proof (cases "reads_in_range a e")
    case False
    then have "nested_scan a vals mc m (e # entries) = Inl IndexOutOfRange"
      using nested_scan_short [of a k vals mc m v entries] e
      by (simp add: reads_in_range_def)
    moreover have "\<not> (\<exists>ident. mc \<le> lookup_count m ident +
        satisfied_count a vals ident (takeWhile (reads_in_range a) (e # entries)))"
      using False Cons.prems by (simp add: satisfied_count_def not_le)
    ultimately show ?thesis using False by auto
  next
    case ok: True
    show ?thesis
    proof (cases "\<exists>ident. satisfies a vals ident e")
      case False
      then have "nested_scan a vals mc m (e # entries) = nested_scan a vals mc m entries"
        using nested_scan_skip [of a k vals v mc m entries] assms(1) ok e
        by (simp add: reads_in_range_def)
      moreover have "\<And>ident. satisfied_count a vals ident (takeWhile (reads_in_range a) (e # entries))
          = satisfied_count a vals ident ?pre"
        using False ok by (simp add: satisfied_count_def)
      ultimately show ?thesis
        using Cons.IH [OF Cons.prems] ok by simp
    next
      case True
      then obtain i0 where i0: "satisfies a vals i0 e" ..
      have only: "\<And>ident. satisfies a vals ident e \<longleftrightarrow> ident = i0"
        using i0 satisfies_ident by blast
      have cnt: "\<And>ident. satisfied_count a vals ident (takeWhile (reads_in_range a) (e # entries))
          = (if ident = i0 then Suc (satisfied_count a vals ident ?pre)
             else satisfied_count a vals ident ?pre)"
        using ok only by (simp add: satisfied_count_def)
      let ?m' = "m(i0 \<mapsto> lookup_count m i0 + 1)"
      have step: "nested_scan a vals mc m (e # entries) =
          (if lookup_count m i0 + 1 = mc then Inr True
           else nested_scan a vals mc ?m' entries)"
        using nested_scan_hit [of a vals i0 k v mc m entries] assms(1) i0 e by simp
      show ?thesis
      proof (cases "lookup_count m i0 + 1 = mc")
        case True
        then have "mc \<le> lookup_count m i0 +
            satisfied_count a vals i0 (takeWhile (reads_in_range a) (e # entries))"
          by (subst cnt) simp
        then have ex: "\<exists>ident. mc \<le> lookup_count m ident +
            satisfied_count a vals ident (takeWhile (reads_in_range a) (e # entries))"
          by (rule exI)
        have "nested_scan a vals mc m (e # entries) = Inr True"
          using step True by simp
        then show ?thesis by (simp only: ex if_True)
      next
        case False
        have inv: "\<forall>ident. lookup_count ?m' ident < mc"
          using Cons.prems False by (auto simp add: lookup_count_upd less_le Suc_le_eq)
        have sums: "\<And>ident. lookup_count ?m' ident + satisfied_count a vals ident ?pre =
            lookup_count m ident +
            satisfied_count a vals ident (takeWhile (reads_in_range a) (e # entries))"
          by (subst cnt) (simp add: lookup_count_upd)
        show ?thesis
          using Cons.IH [OF inv] step False ok by (simp only: sums) simp
      qed
    qed
  qed
qed

text \<open>The result of the loop of the scalar check.\<close>

lemma scalar_scan_eq:
  assumes "a \<noteq> []"
  shows "scalar_scan a val entries = Inr (\<exists>e \<in> set entries. element_matches a val e)"
proof (induction entries)
  case Nil
  show ?case by simp
next
  case (Cons e entries)
  obtain k v where e: "e = (k, v)" by (cases e)
  show ?case
  proof (cases "v = val \<and> length (Split k) = length a")
    case False
    then show ?thesis
      using Cons.IH e by (auto simp add: element_matches_def Let_def)
  next
    case True
    then have "path_loop a (Split k) 0 = Inr (segments_agree a (Split k))"
      using assms by (simp add: path_loop_same_length)
    with True show ?thesis
      using Cons.IH e by (simp add: element_matches_def Let_def)
  qed
qed

lemma satisfied_count_takeWhile:
  "satisfied_count a vals ident (takeWhile Q entries) \<le> satisfied_count a vals ident entries"
proof -
  have "filter (satisfies a vals ident) entries =
      filter (satisfies a vals ident) (takeWhile Q entries) @
      filter (satisfies a vals ident) (dropWhile Q entries)"
    by (simp flip: filter_append)
  then show ?thesis
    by (simp add: satisfied_count_def)
qed

lemma lookup_count_empty: "lookup_count Map.empty ident = 0"
  by (simp add: lookup_count_def)

lemma nested_scan_True_count:
  assumes "a \<noteq> []" and "0 < mc"
    and "nested_scan a vals mc Map.empty entries = Inr True"
  shows "\<exists>ident. mc \<le> satisfied_count a vals ident entries"
proof -
  have inv: "\<forall>ident. lookup_count Map.empty ident < mc"
    using assms(2) by (simp add: lookup_count_empty)
  have "\<exists>ident. mc \<le> satisfied_count a vals ident (takeWhile (reads_in_range a) entries)"
    using assms(3) nested_scan_eq [OF assms(1) inv, of vals entries]
    by (auto simp add: lookup_count_empty split: if_splits)
  then obtain ident where
    "mc \<le> satisfied_count a vals ident (takeWhile (reads_in_range a) entries)" ..
  then have "mc \<le> satisfied_count a vals ident entries"
    using satisfied_count_takeWhile [of a vals ident "reads_in_range a" entries] by simp
  then show ?thesis ..
qed

lemma nested_scan_in_range:
  assumes "a \<noteq> []" and "0 < mc" and "\<forall>e \<in> set entries. reads_in_range a e"
  shows "nested_scan a vals mc Map.empty entries =
    Inr (\<exists>ident. mc \<le> satisfied_count a vals ident entries)"
proof -
  have inv: "\<forall>ident. lookup_count Map.empty ident < mc"
    using assms(2) by (simp add: lookup_count_empty)
  have tw: "takeWhile (reads_in_range a) entries = entries"
    using assms(3) by (simp add: takeWhile_eq_all_conv)
  show ?thesis
    using nested_scan_eq [OF assms(1) inv, of vals entries] assms(3)
    by (simp add: tw lookup_count_empty)
qed


lemma count_nonempty_0: "count_nonempty vals = 0 \<longleftrightarrow> (\<forall>c \<in> set vals. snd c = [])"
  by (induction vals rule: count_nonempty.induct) auto

text \<open>Agreement with the pattern, segment by segment.\<close>

lemma segments_agree_Nil: "segments_agree [] ks"
  by (simp add: segments_agree_def)

lemma segments_agree_Cons:
  "segments_agree (p # ps) (k # ks) \<longleftrightarrow> (p = k \<or> p = sentinelIndex) \<and> segments_agree ps ks"
  by (simp add: segments_agree_def All_less_Suc2)

section \<open>Properties of the two functions\<close>

text \<open>Past the lookups and the checks of the arguments, each function is its loop.\<close>

lemma nested_matcher_unfold:
  assumes "Resources ms res = Some rs" and "Primary rs = Some is"
    and "last (Split attr) = sentinelIndex" and "count_nonempty vals \<noteq> 0"
  shows "TestCheckTypeSetElemNestedAttrs res attr vals ms =
    (case nested_scan (Split attr) vals (count_nonempty vals) Map.empty (Attributes is) of
       Inl e \<Rightarrow> Inl e
     | Inr True \<Rightarrow> Inr ()
     | Inr False \<Rightarrow> Inl (ElementNotFound res attr))"
  using assms
  by (simp add: TestCheckTypeSetElemNestedAttrs_def Let_def index_last Split_not_Nil)

lemma scalar_matcher_unfold:
  assumes "Resources ms res = Some rs" and "Primary rs = Some is"
    and "last (Split attr) = sentinelIndex"
  shows "TestCheckTypeSetElemAttr res attr val ms =
    (case scalar_scan (Split attr) val (Attributes is) of
       Inl e \<Rightarrow> Inl e
     | Inr True \<Rightarrow> Inr ()
     | Inr False \<Rightarrow> Inl (ElementNotFound res attr))"
  using assms
  by (simp add: TestCheckTypeSetElemAttr_def Let_def index_last Split_not_Nil)

text \<open>
  The result of the nested check for a resource with a primary instance, a pattern ending
  in the sentinel and criteria with a non-empty value.
\<close>

lemma nested_matcher_eq:
  assumes "Resources ms res = Some rs" and "Primary rs = Some is"
    and "last (Split attr) = sentinelIndex" and "count_nonempty vals \<noteq> 0"
  shows "TestCheckTypeSetElemNestedAttrs res attr vals ms =
    (if \<exists>ident. count_nonempty vals \<le> satisfied_count (Split attr) vals ident
          (takeWhile (reads_in_range (Split attr)) (Attributes is))
     then Inr ()
     else if \<exists>e \<in> set (Attributes is). \<not> reads_in_range (Split attr) e
     then Inl IndexOutOfRange
     else Inl (ElementNotFound res attr))"
proof -
  have inv: "\<forall>ident. lookup_count Map.empty ident < count_nonempty vals"
    using assms(4) by (simp add: lookup_count_empty)
  show ?thesis
    unfolding nested_matcher_unfold [OF assms]
      nested_scan_eq [OF Split_not_Nil inv]
    by (simp add: lookup_count_empty)
qed

text \<open>
  On a state with no key of at least three segments that is shorter than the pattern
  and agrees with it, the nested check succeeds exactly when some element id has at
  least as many satisfying entries as there are non-empty criteria, and returns
  \<open>ElementNotFound\<close> otherwise.
\<close>

lemma nested_matcher_characterisation:
  assumes "Resources ms res = Some rs" and "Primary rs = Some is"
    and "last (Split attr) = sentinelIndex" and "count_nonempty vals \<noteq> 0"
    and "\<forall>e \<in> set (Attributes is). reads_in_range (Split attr) e"
  shows "TestCheckTypeSetElemNestedAttrs res attr vals ms =
    (if \<exists>ident. count_nonempty vals \<le> satisfied_count (Split attr) vals ident (Attributes is)
     then Inr () else Inl (ElementNotFound res attr))"
proof -
  have tw: "takeWhile (reads_in_range (Split attr)) (Attributes is) = Attributes is"
    using assms(5) by (simp add: takeWhile_eq_all_conv)
  show ?thesis
    unfolding nested_matcher_eq [OF assms(1-4)] tw using assms(5) by simp
qed

text \<open>
  Order of traversal: two lists with the same entries, each as often, are two orders of
  traversal of one map.
\<close>

lemma satisfied_count_mset:
  "mset entries' = mset entries \<Longrightarrow>
   satisfied_count a vals ident entries' = satisfied_count a vals ident entries"
proof -
  assume "mset entries' = mset entries"
  then have "mset (filter (satisfies a vals ident) entries') =
      mset (filter (satisfies a vals ident) entries)"
    by simp
  then show ?thesis
    unfolding satisfied_count_def by (rule mset_eq_length)
qed

lemma nested_matcher_order:
  assumes "Resources ms res = Some rs" and "Primary rs = Some is"
    and "Resources ms' res = Some rs'" and "Primary rs' = Some is'"
    and "mset (Attributes is') = mset (Attributes is)"
    and "\<forall>e \<in> set (Attributes is). reads_in_range (Split attr) e"
  shows "TestCheckTypeSetElemNestedAttrs res attr vals ms' =
    TestCheckTypeSetElemNestedAttrs res attr vals ms"
proof (cases "last (Split attr) = sentinelIndex \<and> count_nonempty vals \<noteq> 0")
  case False
  then show ?thesis
    using assms(1-4)
    by (auto simp add: TestCheckTypeSetElemNestedAttrs_def Let_def index_last Split_not_Nil)
next
  case True
  have "set (Attributes is') = set (Attributes is)"
    using assms(5) by (rule mset_eq_setD)
  then have in_range': "\<forall>e \<in> set (Attributes is'). reads_in_range (Split attr) e"
    using assms(6) by simp
  show ?thesis
    using True nested_matcher_characterisation [OF assms(1,2) _ _ assms(6), of vals]
      nested_matcher_characterisation [OF assms(3,4) _ _ in_range', of vals]
    by (simp add: satisfied_count_mset [OF assms(5)])
qed

lemma scalar_matcher_order:
  assumes "Resources ms res = Some rs" and "Primary rs = Some is"
    and "Resources ms' res = Some rs'" and "Primary rs' = Some is'"
    and "mset (Attributes is') = mset (Attributes is)"
  shows "TestCheckTypeSetElemAttr res attr val ms' = TestCheckTypeSetElemAttr res attr val ms"
proof -
  have "set (Attributes is') = set (Attributes is)"
    using assms(5) by (rule mset_eq_setD)
  then have "scalar_scan (Split attr) val (Attributes is') =
      scalar_scan (Split attr) val (Attributes is)"
    by (simp add: scalar_scan_eq [OF Split_not_Nil])
  then show ?thesis
    using assms(1-4)
    by (auto simp add: TestCheckTypeSetElemAttr_def Let_def index_last Split_not_Nil)
qed




text \<open>The equations that evaluate the two functions on a given state.\<close>

lemmas eval_simps =
  TestCheckTypeSetElemNestedAttrs_def TestCheckTypeSetElemAttr_def single_resource_def
  index_def slice_from_def sentinelIndex_def lookup_count_def path_loop.simps

section \<open>The claims\<close>

text \<open>
  Claim C1 says that, for every state, the nested check succeeds when some element id
  has as many satisfying entries as there are non-empty criteria, and returns
  \<open>ElementNotFound\<close> otherwise. The code does so, counting the entries with keys of
  at least three segments, on the states of
  \<open>nested_matcher_characterisation\<close>; on a state with a key of at least three
  segments that is shorter than the pattern and agrees with it, it does neither. With
  the pattern \<open>a.b.c.*\<close> and the key \<open>a.b.c\<close>: no element id has a satisfying entry and the
  result is the panic, not \<open>ElementNotFound\<close>; and with a second entry that satisfies
  the only criterion for the id \<open>0\<close>, visited after the short key, the result is the
  panic, not success.
\<close>

theorem nested_matcher_short_key:
  "TestCheckTypeSetElemNestedAttrs ''r'' ''a.b.c.*'' [(''name'', ''v'')]
     (single_resource ''r'' [(''a.b.c'', ''x'')]) = Inl IndexOutOfRange \<and>
   (\<forall>ident. satisfied_count (Split ''a.b.c.*'') [(''name'', ''v'')] ident [(''a.b.c'', ''x'')] = 0) \<and>
   TestCheckTypeSetElemNestedAttrs ''r'' ''a.b.c.*'' [(''name'', ''v'')]
     (single_resource ''r'' [(''a.b.c'', ''x''), (''a.b.c.0.name'', ''v'')]) = Inl IndexOutOfRange \<and>
   count_nonempty [(''name'', ''v'')] \<le>
     satisfied_count (Split ''a.b.c.*'') [(''name'', ''v'')] ''0''
       [(''a.b.c'', ''x''), (''a.b.c.0.name'', ''v'')]"
  by (simp add: eval_simps satisfied_count_def satisfies_def key_matches_def
      segments_agree_Cons segments_agree_Nil)

text \<open>
  Claim C2 says that a criterion with an empty expected value never adds to a counter.
  In the code the count of non-empty criteria leaves such a criterion out, but the
  increment does not: an entry with an empty value under an empty-valued criterion
  raises the counter of its element id. With the criteria \<open>name = a\<close>, \<open>port =\<close> empty,
  the threshold is one, and the element \<open>0\<close> with \<open>name = b\<close> and an empty
  \<open>port\<close> makes the check succeed, in either order of traversal, although its name is
  not the expected one.
\<close>

theorem empty_criterion_counts:
  "count_nonempty [(''name'', ''a''), (''port'', '''')] = 1 \<and>
   TestCheckTypeSetElemNestedAttrs ''r'' ''set.*'' [(''name'', ''a''), (''port'', '''')]
     (single_resource ''r'' [(''set.0.name'', ''b''), (''set.0.port'', '''')]) = Inr () \<and>
   TestCheckTypeSetElemNestedAttrs ''r'' ''set.*'' [(''name'', ''a''), (''port'', '''')]
     (single_resource ''r'' [(''set.0.port'', ''''), (''set.0.name'', ''b'')]) = Inr ()"
  by (simp add: eval_simps)

text \<open>
  Claim C3 says that every read of a key's segment during the path comparison is in
  bounds. The key \<open>rule.0.filter\<close> has three segments, the pattern
  \<open>rule.0.filter.*\<close> four, and they agree on the first three: the comparison reads
  the key's segment at index 3, and the nested check ends in the panic.
\<close>

theorem path_comparison_out_of_range:
  "3 \<le> length (Split ''rule.0.filter'') \<and>
   length (Split ''rule.0.filter'') < length (Split ''rule.0.filter.*'') \<and>
   path_loop (Split ''rule.0.filter.*'') (Split ''rule.0.filter'') 0 = Inl IndexOutOfRange \<and>
   TestCheckTypeSetElemNestedAttrs ''r'' ''rule.0.filter.*'' [(''prefix'', ''logs/'')]
     (single_resource ''r'' [(''rule.0.filter'', ''x'')]) = Inl IndexOutOfRange"
  by (simp add: eval_simps)

text \<open>
  Claim C4. For a resource with a primary instance and a pattern ending in the sentinel,
  the scalar check succeeds exactly when some entry has a key with as many segments as
  the pattern, the expected value, and segments that agree with the pattern position
  for position, a sentinel matching any segment; otherwise it returns
  \<open>ElementNotFound\<close>.
\<close>

theorem scalar_matcher_contract:
  assumes "Resources ms res = Some rs" and "Primary rs = Some is"
    and "last (Split attr) = sentinelIndex"
  shows "TestCheckTypeSetElemAttr res attr val ms =
    (if \<exists>e \<in> set (Attributes is).
          length (Split (fst e)) = length (Split attr) \<and> snd e = val \<and>
          segments_agree (Split attr) (Split (fst e))
     then Inr () else Inl (ElementNotFound res attr))"
proof -
  let ?found = "\<exists>e \<in> set (Attributes is). element_matches (Split attr) val e"
  have "TestCheckTypeSetElemAttr res attr val ms =
      (if ?found then Inr () else Inl (ElementNotFound res attr))"
    unfolding scalar_matcher_unfold [OF assms] scalar_scan_eq [OF Split_not_Nil]
    by (cases ?found) simp_all
  then show ?thesis
    by (simp add: element_matches_def)
qed

text \<open>Claim C4 at a set of one scalar, for a value that is there and one that is not.\<close>

theorem scalar_matcher_contract_witness:
  "last (Split ''set.*'') = sentinelIndex \<and>
   TestCheckTypeSetElemAttr ''r'' ''set.*'' ''x''
     (single_resource ''r'' [(''set.#'', ''1''), (''set.123'', ''x'')]) = Inr () \<and>
   TestCheckTypeSetElemAttr ''r'' ''set.*'' ''y''
     (single_resource ''r'' [(''set.#'', ''1''), (''set.123'', ''x'')]) = Inl (ElementNotFound ''r'' ''set.*'')"
proof -
  let ?s = "[(''set.#'', ''1''), (''set.123'', ''x'')]"
  have r: "Resources (single_resource ''r'' ?s) ''r'' = Some \<lparr>Primary = Some \<lparr>Attributes = ?s\<rparr>\<rparr>"
    by (simp add: single_resource_def)
  have p: "Primary \<lparr>Primary = Some \<lparr>Attributes = ?s\<rparr>\<rparr> = Some \<lparr>Attributes = ?s\<rparr>"
    by simp
  have l: "last (Split ''set.*'') = sentinelIndex"
    by (simp add: sentinelIndex_def)
  show ?thesis
    using scalar_matcher_contract [OF r p l, of "''x''"] scalar_matcher_contract [OF r p l, of "''y''"]
    by (simp add: segments_agree_Cons segments_agree_Nil sentinelIndex_def)
qed




text \<open>
  Claim C6. The counters are per element id: whenever the nested check succeeds, a
  single element id has at least as many satisfying entries as there are non-empty
  criteria. For the state \<open>set.0.name = a\<close>, \<open>set.1.port = 80\<close>, the pattern
  \<open>set.*\<close> and the criteria \<open>name = a\<close>, \<open>port = 80\<close> the result is
  \<open>ElementNotFound\<close>, in either order of traversal.
\<close>

theorem counters_per_element_id:
  "(\<forall>ms res rs is attr vals.
      Resources ms res = Some rs \<longrightarrow> Primary rs = Some is \<longrightarrow>
      TestCheckTypeSetElemNestedAttrs res attr vals ms = Inr () \<longrightarrow>
      (\<exists>ident. count_nonempty vals \<le>
         satisfied_count (Split attr) vals ident (Attributes is))) \<and>
   TestCheckTypeSetElemNestedAttrs ''r'' ''set.*'' [(''name'', ''a''), (''port'', ''80'')]
     (single_resource ''r'' [(''set.0.name'', ''a''), (''set.1.port'', ''80'')])
     = Inl (ElementNotFound ''r'' ''set.*'') \<and>
   TestCheckTypeSetElemNestedAttrs ''r'' ''set.*'' [(''name'', ''a''), (''port'', ''80'')]
     (single_resource ''r'' [(''set.1.port'', ''80''), (''set.0.name'', ''a'')])
     = Inl (ElementNotFound ''r'' ''set.*'')"
proof (intro conjI allI impI)
  fix ms res rs "is" attr vals
  assume r: "Resources ms res = Some rs" and p: "Primary rs = Some is"
    and ok: "TestCheckTypeSetElemNestedAttrs res attr vals ms = Inr ()"
  have l: "last (Split attr) = sentinelIndex"
    using r p ok
    by (auto simp add: TestCheckTypeSetElemNestedAttrs_def Let_def index_last Split_not_Nil
        split: if_splits)
  have c: "count_nonempty vals \<noteq> 0"
    using r p ok l
    by (auto simp add: TestCheckTypeSetElemNestedAttrs_def Let_def index_last Split_not_Nil
        split: if_splits)
  have pos: "0 < count_nonempty vals"
    using c by simp
  have scan: "nested_scan (Split attr) vals (count_nonempty vals) Map.empty (Attributes is) = Inr True"
    using ok unfolding nested_matcher_unfold [OF r p l c]
    by (auto split: sum.splits bool.splits)
  show "\<exists>ident. count_nonempty vals \<le> satisfied_count (Split attr) vals ident (Attributes is)"
    by (rule nested_scan_True_count [OF Split_not_Nil pos scan])
qed (simp_all add: eval_simps)

text \<open>Claim C6 at a state where the element \<open>0\<close> satisfies both criteria.\<close>

theorem counters_per_element_id_witness:
  "TestCheckTypeSetElemNestedAttrs ''r'' ''set.*'' [(''name'', ''a''), (''port'', ''80'')]
     (single_resource ''r'' [(''set.0.name'', ''a''), (''set.0.port'', ''80''), (''set.1.name'', ''b'')])
     = Inr () \<and>
   (\<exists>ident. count_nonempty [(''name'', ''a''), (''port'', ''80'')] \<le>
      satisfied_count (Split ''set.*'') [(''name'', ''a''), (''port'', ''80'')] ident
        [(''set.0.name'', ''a''), (''set.0.port'', ''80''), (''set.1.name'', ''b'')])"
proof -
  let ?s = "[(''set.0.name'', ''a''), (''set.0.port'', ''80''), (''set.1.name'', ''b'')]"
  let ?c = "[(''name'', ''a''), (''port'', ''80'')]"
  have r: "Resources (single_resource ''r'' ?s) ''r'' = Some \<lparr>Primary = Some \<lparr>Attributes = ?s\<rparr>\<rparr>"
    by (simp add: single_resource_def)
  have p: "Primary \<lparr>Primary = Some \<lparr>Attributes = ?s\<rparr>\<rparr> = Some \<lparr>Attributes = ?s\<rparr>"
    by simp
  have ok: "TestCheckTypeSetElemNestedAttrs ''r'' ''set.*'' ?c (single_resource ''r'' ?s) = Inr ()"
    by (simp add: eval_simps)
  from counters_per_element_id have
    "Resources (single_resource ''r'' ?s) ''r'' = Some \<lparr>Primary = Some \<lparr>Attributes = ?s\<rparr>\<rparr> \<longrightarrow>
     Primary \<lparr>Primary = Some \<lparr>Attributes = ?s\<rparr>\<rparr> = Some \<lparr>Attributes = ?s\<rparr> \<longrightarrow>
     TestCheckTypeSetElemNestedAttrs ''r'' ''set.*'' ?c (single_resource ''r'' ?s) = Inr () \<longrightarrow>
     (\<exists>ident. count_nonempty ?c \<le> satisfied_count (Split ''set.*'') ?c ident
        (Attributes \<lparr>Attributes = ?s\<rparr>))"
    by blast
  with r p ok show ?thesis by simp
qed

text \<open>
  Claim C7. For a resource with a primary instance and a pattern whose last segment is
  not the sentinel, both functions return \<open>InvalidPattern\<close>, for every attribute list,
  expected value and criteria: no entry of the state decides the result.
\<close>

theorem invalid_pattern_rejected:
  assumes "Resources ms res = Some rs" and "Primary rs = Some is"
    and "last (Split attr) \<noteq> sentinelIndex"
  shows "TestCheckTypeSetElemAttr res attr val ms = Inl (InvalidPattern attr) \<and>
    TestCheckTypeSetElemNestedAttrs res attr vals ms = Inl (InvalidPattern attr)"
  using assms
  by (simp add: TestCheckTypeSetElemAttr_def TestCheckTypeSetElemNestedAttrs_def Let_def
      index_last Split_not_Nil)

text \<open>Claim C7 at the pattern \<open>set.0\<close>.\<close>

theorem invalid_pattern_rejected_witness:
  "last (Split ''set.0'') \<noteq> sentinelIndex \<and>
   TestCheckTypeSetElemAttr ''r'' ''set.0'' ''x'' (single_resource ''r'' [(''a.b.c'', ''x'')])
     = Inl (InvalidPattern ''set.0'') \<and>
   TestCheckTypeSetElemNestedAttrs ''r'' ''set.0'' [] (single_resource ''r'' [(''a.b.c'', ''x'')])
     = Inl (InvalidPattern ''set.0'')"
proof -
  have r: "Resources (single_resource ''r'' [(''a.b.c'', ''x'')]) ''r'' =
      Some \<lparr>Primary = Some \<lparr>Attributes = [(''a.b.c'', ''x'')]\<rparr>\<rparr>"
    by (simp add: single_resource_def)
  have p: "Primary \<lparr>Primary = Some \<lparr>Attributes = [(''a.b.c'', ''x'')]\<rparr>\<rparr> =
      Some \<lparr>Attributes = [(''a.b.c'', ''x'')]\<rparr>"
    by simp
  have l: "last (Split ''set.0'') \<noteq> sentinelIndex"
    by (simp add: sentinelIndex_def)
  show ?thesis
    using invalid_pattern_rejected [OF r p l, of "''x''" "[]"]
    by (simp add: sentinelIndex_def)
qed

text \<open>
  Claim C8. For a resource with a primary instance and a pattern ending in the sentinel,
  criteria whose values are all empty (the empty criteria among them) make the nested
  check return \<open>EmptyCriteria\<close>, for every attribute list: no entry of the state
  decides the result.
\<close>

theorem empty_criteria_rejected:
  assumes "Resources ms res = Some rs" and "Primary rs = Some is"
    and "last (Split attr) = sentinelIndex"
    and "\<forall>c \<in> set vals. snd c = []"
  shows "TestCheckTypeSetElemNestedAttrs res attr vals ms = Inl EmptyCriteria"
proof -
  have "count_nonempty vals = 0"
    using assms(4) by (simp add: count_nonempty_0)
  then show ?thesis
    using assms(1-3)
    by (simp add: TestCheckTypeSetElemNestedAttrs_def Let_def index_last Split_not_Nil)
qed

text \<open>Claim C8 at two criteria with empty values and at the empty criteria.\<close>

theorem empty_criteria_rejected_witness:
  "last (Split ''set.*'') = sentinelIndex \<and>
   TestCheckTypeSetElemNestedAttrs ''r'' ''set.*'' [(''name'', ''''), (''port'', '''')]
     (single_resource ''r'' [(''set.0.name'', ''''), (''a.b.c'', ''x'')]) = Inl EmptyCriteria \<and>
   TestCheckTypeSetElemNestedAttrs ''r'' ''a.b.c.*'' []
     (single_resource ''r'' [(''a.b.c'', ''x'')]) = Inl EmptyCriteria"
proof -
  let ?s1 = "[(''set.0.name'', ''''), (''a.b.c'', ''x'')]"
  let ?s2 = "[(''a.b.c'', ''x'')]"
  have r1: "Resources (single_resource ''r'' ?s1) ''r'' = Some \<lparr>Primary = Some \<lparr>Attributes = ?s1\<rparr>\<rparr>"
    and r2: "Resources (single_resource ''r'' ?s2) ''r'' = Some \<lparr>Primary = Some \<lparr>Attributes = ?s2\<rparr>\<rparr>"
    by (simp_all add: single_resource_def)
  have p1: "Primary \<lparr>Primary = Some \<lparr>Attributes = ?s1\<rparr>\<rparr> = Some \<lparr>Attributes = ?s1\<rparr>"
    and p2: "Primary \<lparr>Primary = Some \<lparr>Attributes = ?s2\<rparr>\<rparr> = Some \<lparr>Attributes = ?s2\<rparr>"
    by simp_all
  have l1: "last (Split ''set.*'') = sentinelIndex" and l2: "last (Split ''a.b.c.*'') = sentinelIndex"
    by (simp_all add: sentinelIndex_def)
  have e1: "\<forall>c \<in> set [(''name'', ''''), (''port'', '''')]. snd c = []"
    and e2: "\<forall>c \<in> set ([] :: (string \<times> string) list). snd c = []"
    by simp_all
  show ?thesis
    using empty_criteria_rejected [OF r1 p1 l1 e1] empty_criteria_rejected [OF r2 p2 l2 e2]
    by (simp add: sentinelIndex_def)
qed

text \<open>
  Claim C9 says that the outcome of both checks is the same for every order of traversal
  of the same entries. That holds for the scalar check (\<open>scalar_matcher_order\<close>) and
  for the nested check on the states of \<open>nested_matcher_order\<close>. On a state with a
  key that is shorter than the pattern and agrees with it, the nested check succeeds when the
  satisfying entry is visited first and panics when the short key is.
\<close>

theorem nested_matcher_depends_on_order:
  "mset [(''a.b.c'', ''x''), (''a.b.c.0.name'', ''v'')] =
     mset [(''a.b.c.0.name'', ''v''), (''a.b.c'', ''x'')] \<and>
   TestCheckTypeSetElemNestedAttrs ''r'' ''a.b.c.*'' [(''name'', ''v'')]
     (single_resource ''r'' [(''a.b.c.0.name'', ''v''), (''a.b.c'', ''x'')]) = Inr () \<and>
   TestCheckTypeSetElemNestedAttrs ''r'' ''a.b.c.*'' [(''name'', ''v'')]
     (single_resource ''r'' [(''a.b.c'', ''x''), (''a.b.c.0.name'', ''v'')]) = Inl IndexOutOfRange"
  by (simp add: eval_simps)

text \<open>
  Claim C10. For both functions: when the named resource is not in the module's resource
  map the result is \<open>ResourceNotFound\<close> with the resource name and the module path, and
  when the resource is there without a primary instance the result is
  \<open>InstanceNotFound\<close>. Both hold for every pattern, expected value, criteria and
  attribute list, so neither the pattern check nor the scan of the entries decides them.
\<close>

theorem missing_resource_or_instance:
  "(Resources ms res = None \<longrightarrow>
      TestCheckTypeSetElemNestedAttrs res attr vals ms = Inl (ResourceNotFound res (Path ms)) \<and>
      TestCheckTypeSetElemAttr res attr val ms = Inl (ResourceNotFound res (Path ms))) \<and>
   (Resources ms res = Some rs \<and> Primary rs = None \<longrightarrow>
      TestCheckTypeSetElemNestedAttrs res attr vals ms = Inl (InstanceNotFound res (Path ms)) \<and>
      TestCheckTypeSetElemAttr res attr val ms = Inl (InstanceNotFound res (Path ms)))"
  by (simp add: TestCheckTypeSetElemNestedAttrs_def TestCheckTypeSetElemAttr_def)

text \<open>Claim C10 at a module without the resource and at one without a primary instance.\<close>

theorem missing_resource_or_instance_witness:
  "TestCheckTypeSetElemNestedAttrs ''aws_x.a'' ''set'' [] \<lparr>Path = [''root''], Resources = Map.empty\<rparr>
     = Inl (ResourceNotFound ''aws_x.a'' [''root'']) \<and>
   TestCheckTypeSetElemAttr ''aws_x.a'' ''set'' ''v'' \<lparr>Path = [''root''], Resources = Map.empty\<rparr>
     = Inl (ResourceNotFound ''aws_x.a'' [''root'']) \<and>
   TestCheckTypeSetElemNestedAttrs ''aws_x.a'' ''set'' []
     \<lparr>Path = [''root''], Resources = [''aws_x.a'' \<mapsto> \<lparr>Primary = None\<rparr>]\<rparr>
     = Inl (InstanceNotFound ''aws_x.a'' [''root'']) \<and>
   TestCheckTypeSetElemAttr ''aws_x.a'' ''set'' ''v''
     \<lparr>Path = [''root''], Resources = [''aws_x.a'' \<mapsto> \<lparr>Primary = None\<rparr>]\<rparr>
     = Inl (InstanceNotFound ''aws_x.a'' [''root''])"
  using missing_resource_or_instance
    [of "\<lparr>Path = [''root''], Resources = Map.empty\<rparr>" "''aws_x.a''" "''set''" "[]" "''v''"]
    missing_resource_or_instance
    [of "\<lparr>Path = [''root''], Resources = [''aws_x.a'' \<mapsto> \<lparr>Primary = None\<rparr>]\<rparr>"
        "''aws_x.a''" "''set''" "[]" "''v''" "\<lparr>Primary = None\<rparr>"]
  by simp

end
